theory Spec2Isabelle
  imports Main "HOL-Library.AList" "HOL-Library.Char_ord"
begin

section \<open>Tasks\<close>

text \<open>
  Modelled from the spec: the types \<^verbatim>\<open>Status\<close> and \<^verbatim>\<open>Task\<close>, declared in task.go,
  which is missing from the sources (its tests, task_test.go, and its callers are there).
  A status is a string (the tests build \<^verbatim>\<open>Status("bogus")\<close>), and four strings are
  valid statuses: "pending | in_progress | complete | failed". The fields of a task are
  those of the spec's data model and of TestTaskJSONSerialization.
\<close>

type_synonym Status = string

definition StatusPending :: Status where
  "StatusPending = ''pending''"

definition StatusInProgress :: Status where
  "StatusInProgress = ''in_progress''"

definition StatusComplete :: Status where
  "StatusComplete = ''complete''"

definition StatusFailed :: Status where
  "StatusFailed = ''failed''"

text \<open>Timestamps are read from a clock the caller supplies.\<close>

type_synonym time = int

record Task =
  ID :: string
  Title :: string
  Description :: string
  Status :: Status
  Deps :: "string list"
  Repo :: string
  Priority :: int
  Model :: string
  Fallback :: string
  SpecRef :: string
  CreatedAt :: time
  UpdatedAt :: time

text \<open>One constructor for each place where the registry builds an error.\<close>

datatype error =
    ValidationError string
  | DuplicateID string
  | NotFound string
  | UnknownDependency string
  | CircularDependency string
  | HasDependents string string
  | InvalidTransition Status Status
  | ReadFailed
  | UnmarshalFailed
  | InvalidTask string string
  | TaskError string error

text \<open>
  Modelled from the spec: \<^verbatim>\<open>Status.IsValid\<close>, declared in the missing task.go.
  "status: one of pending | in_progress | complete | failed"; the test TestStatusIsValid
  accepts the four constants and rejects \<^verbatim>\<open>Status("bogus")\<close>.
\<close>

definition IsValid :: "Status \<Rightarrow> bool" where
  "IsValid s \<longleftrightarrow>
     s = StatusPending \<or> s = StatusInProgress \<or> s = StatusComplete \<or> s = StatusFailed"

text \<open>
  Modelled from the spec: \<^verbatim>\<open>Task.Validate\<close>, declared in the missing task.go.
  "id and title are non-empty; status is always one of the four valid values". The
  messages and their order are those TestTaskValidation expects: a task with neither ID
  nor status reports the ID, a task with neither title nor status reports the title.
\<close>

definition Validate :: "Task \<Rightarrow> string option" where
  "Validate t =
     (if ID t = [] then Some ''task ID cannot be empty''
      else if Title t = [] then Some ''task title cannot be empty''
      else if \<not> IsValid (Status t) then Some ''invalid status''
      else None)"

text \<open>
  Modelled from the spec: \<^verbatim>\<open>Task.SetStatus\<close>, declared in the missing task.go.
  "pending \<rightarrow> in_progress \<rightarrow> {complete | failed}; failed \<rightarrow> pending is the only exit from
  a terminal state. All other transitions fail with InvalidTransition"; "updated_at is
  refreshed on every mutation, including status transitions".
\<close>

definition canTransition :: "Status \<Rightarrow> Status \<Rightarrow> bool" where
  "canTransition from to \<longleftrightarrow>
     (from = StatusPending \<and> to = StatusInProgress) \<or>
     (from = StatusInProgress \<and> to = StatusComplete) \<or>
     (from = StatusInProgress \<and> to = StatusFailed) \<or>
     (from = StatusFailed \<and> to = StatusPending)"

definition SetStatus :: "time \<Rightarrow> Task \<Rightarrow> Status \<Rightarrow> error option \<times> Task" where
  "SetStatus now t to =
     (if canTransition (Status t) to
      then (None, t\<lparr>Status := to, UpdatedAt := now\<rparr>)
      else (Some (InvalidTransition (Status t) to), t))"

text \<open>
  Modelled from the spec: the constructor \<^verbatim>\<open>New\<close>, declared in the missing task.go.
  "created via a constructor that sets status = pending and stamps both timestamps";
  TestNewTask reads back the ID, the title and the pending status.
\<close>

definition New :: "time \<Rightarrow> string \<Rightarrow> string \<Rightarrow> Task" where
  "New now id' title =
     \<lparr>ID = id', Title = title, Description = [], Status = StatusPending, Deps = [],
      Repo = [], Priority = 0, Model = [], Fallback = [], SpecRef = [],
      CreatedAt = now, UpdatedAt = now\<rparr>"

section \<open>The registry\<close>

text \<open>
  \<^verbatim>\<open>tasks map[string]*Task\<close>. The registry is the list of the map's entries, in the
  order in which a \<^verbatim>\<open>range\<close> over the map meets them; Go leaves that order open, so
  nothing below depends on it. A Go map holds each key once: \<open>wf_registry\<close>.
  A stored pointer is modelled by the task it points to at the time of the call; no
  registry operation writes through a task pointer.
\<close>

type_synonym Registry = "(string \<times> Task) list"

definition wf_registry :: "Registry \<Rightarrow> bool" where
  "wf_registry r \<longleftrightarrow> distinct (map fst r)"

definition NewRegistry :: Registry where
  "NewRegistry = []"

text \<open>
  A slice is nil or holds a list: \<^verbatim>\<open>var s []T\<close> is nil, \<^verbatim>\<open>make([]T, 0, n)\<close> is
  empty and not nil, and \<^verbatim>\<open>append\<close> to either is not nil.
\<close>

datatype 'a slice = NilSlice | Slice "'a list"

fun elems :: "'a slice \<Rightarrow> 'a list" where
  "elems NilSlice = []"
| "elems (Slice xs) = xs"

fun append_slice :: "'a slice \<Rightarrow> 'a \<Rightarrow> 'a slice" where
  "append_slice NilSlice x = Slice [x]"
| "append_slice (Slice xs) x = Slice (xs @ [x])"

fun validateDepsLoop :: "Registry \<Rightarrow> string list \<Rightarrow> error option" where
  "validateDepsLoop r [] = None"
| "validateDepsLoop r (depID # deps) =
     (if map_of r depID = None then Some (UnknownDependency depID)
      else validateDepsLoop r deps)"

definition validateDepsLocked :: "Registry \<Rightarrow> Task \<Rightarrow> error option" where
  "validateDepsLocked r task = validateDepsLoop r (Deps task)"

fun allDepsCompleteLoop :: "Registry \<Rightarrow> string list \<Rightarrow> bool" where
  "allDepsCompleteLoop r [] = True"
| "allDepsCompleteLoop r (depID # deps) =
     (case map_of r depID of
        None \<Rightarrow> False
      | Some dep \<Rightarrow>
          if Status dep \<noteq> StatusComplete then False else allDepsCompleteLoop r deps)"

definition allDepsCompleteLocked :: "Registry \<Rightarrow> Task \<Rightarrow> bool" where
  "allDepsCompleteLocked r task = allDepsCompleteLoop r (Deps task)"

text \<open>
  \<^verbatim>\<open>checkCircularLocked\<close> returns the error, if any; the \<^verbatim>\<open>visited\<close> map is shared
  by all the calls of one walk, so the model returns it next to the error.
\<close>

function checkCircularLocked ::
  "Registry \<Rightarrow> string \<Rightarrow> string list \<Rightarrow> string set \<Rightarrow> error option \<times> string set" where
  "checkCircularLocked r startID [] visited = (None, visited)"
| "checkCircularLocked r startID (depID # deps) visited =
     (if depID = startID then (Some (CircularDependency startID), visited)
      else if depID \<in> visited then checkCircularLocked r startID deps visited
      else (case map_of r depID of
              None \<Rightarrow> checkCircularLocked r startID deps (insert depID visited)
            | Some dep \<Rightarrow>
                (case checkCircularLocked r startID (Deps dep) (insert depID visited) of
                   (Some err, visited') \<Rightarrow> (Some err, visited')
                 | (None, visited') \<Rightarrow> checkCircularLocked r startID deps visited')))"
  by pat_completeness auto

lemma checkCircularLocked_visited_mono:
  "checkCircularLocked_dom (r, s, deps, V) \<Longrightarrow> V \<subseteq> snd (checkCircularLocked r s deps V)"
proof (induct r s deps V rule: checkCircularLocked.pinduct)
  case (1 r s V)
  then show ?case by (simp add: checkCircularLocked.psimps)
next
  case (2 r s d ds V)
  note dom = 2(1)
  show ?case
  proof (cases "d = s")
    case True
    with dom show ?thesis by (simp add: checkCircularLocked.psimps)
  next
    case ns: False
    show ?thesis
    proof (cases "d \<in> V")
      case True
      with ns dom 2(2) show ?thesis by (simp add: checkCircularLocked.psimps)
    next
      case nv: False
      show ?thesis
      proof (cases "map_of r d")
        case None
        with ns nv dom 2(3) show ?thesis
          by (auto simp: checkCircularLocked.psimps)
      next
        case (Some dep)
        obtain res V' where inner: "checkCircularLocked r s (Deps dep) (insert d V) = (res, V')"
          by (cases "checkCircularLocked r s (Deps dep) (insert d V)")
        from 2(4) [OF ns nv Some] inner have sub1: "insert d V \<subseteq> V'" by simp
        show ?thesis
        proof (cases res)
          case None
          from 2(5) [OF ns nv Some inner [symmetric] None]
          have "V' \<subseteq> snd (checkCircularLocked r s ds V')" .
          with sub1 ns nv Some inner None dom show ?thesis
            by (auto simp: checkCircularLocked.psimps)
        next
          case (Some e)
          with sub1 ns nv \<open>map_of r d = Some dep\<close> inner dom show ?thesis
            by (auto simp: checkCircularLocked.psimps)
        qed
      qed
    qed
  qed
qed

termination checkCircularLocked
proof (relation "measures [\<lambda>(r, s, deps, V). card (fst ` set r - V),
                           \<lambda>(r, s, deps, V). length deps]", goal_cases)
  case 1
  show ?case by simp
next
  case (2 r s d ds V)
  then show ?case by simp
next
  case (3 r s d ds V)
  have "card (fst ` set r - insert d V) \<le> card (fst ` set r - V)"
    by (rule card_mono) auto
  then show ?case by auto
next
  case (4 r s d ds V dep)
  from 4(3) have "(d, dep) \<in> set r" by (rule map_of_SomeD)
  then have "d \<in> fst ` set r" by (simp add: rev_image_eqI)
  with 4(2) have "fst ` set r - insert d V \<subset> fst ` set r - V" by auto
  then have "card (fst ` set r - insert d V) < card (fst ` set r - V)"
    by (intro psubset_card_mono) simp_all
  then show ?case by simp
next
  case (5 r s d ds V dep x V')
  from 5(4) have "snd (checkCircularLocked r s (Deps dep) (insert d V)) = V'"
    by (metis snd_conv)
  with checkCircularLocked_visited_mono [OF 5(6)]
  have "insert d V \<subseteq> V'" by simp
  then have "card (fst ` set r - V') \<le> card (fst ` set r - V)"
    by (intro card_mono) auto
  then show ?case by auto
qed


text \<open>
  Every mutating operation returns its error (\<open>None\<close> is Go's \<^verbatim>\<open>nil\<close>) and the
  registry as the call leaves it.
\<close>

definition Add :: "Registry \<Rightarrow> Task \<Rightarrow> error option \<times> Registry" where
  "Add r task =
     (case Validate task of
        Some msg \<Rightarrow> (Some (ValidationError msg), r)
      | None \<Rightarrow>
          if map_of r (ID task) \<noteq> None then (Some (DuplicateID (ID task)), r)
          else (case validateDepsLocked r task of
                  Some err \<Rightarrow> (Some err, r)
                | None \<Rightarrow> (None, AList.update (ID task) task r)))"

definition Get :: "Registry \<Rightarrow> string \<Rightarrow> error + Task" where
  "Get r id' = (case map_of r id' of None \<Rightarrow> Inl (NotFound id') | Some task \<Rightarrow> Inr task)"

definition Update :: "Registry \<Rightarrow> Task \<Rightarrow> error option \<times> Registry" where
  "Update r task =
     (case Validate task of
        Some msg \<Rightarrow> (Some (ValidationError msg), r)
      | None \<Rightarrow>
          if map_of r (ID task) = None then (Some (NotFound (ID task)), r)
          else (case validateDepsLocked r task of
                  Some err \<Rightarrow> (Some err, r)
                | None \<Rightarrow>
                    (case fst (checkCircularLocked r (ID task) (Deps task) {}) of
                       Some err \<Rightarrow> (Some err, r)
                     | None \<Rightarrow> (None, AList.update (ID task) task r))))"

text \<open>The loop of \<^verbatim>\<open>Delete\<close> over the stored tasks and, inside it, over their deps.\<close>

fun dependentsLoop :: "string \<Rightarrow> Registry \<Rightarrow> error option" where
  "dependentsLoop id' [] = None"
| "dependentsLoop id' ((k, task) # rest) =
     (if id' \<in> set (Deps task) then Some (HasDependents id' (ID task))
      else dependentsLoop id' rest)"

definition Delete :: "Registry \<Rightarrow> string \<Rightarrow> error option \<times> Registry" where
  "Delete r id' =
     (if map_of r id' = None then (Some (NotFound id'), r)
      else (case dependentsLoop id' r of
              Some err \<Rightarrow> (Some err, r)
            | None \<Rightarrow> (None, AList.delete id' r)))"

text \<open>
  \<^verbatim>\<open>for _, task := range r.tasks { if keep(task) { tasks = append(tasks, task) } }\<close>,
  the loop of \<^verbatim>\<open>List\<close>, \<^verbatim>\<open>ListByStatus\<close>, \<^verbatim>\<open>ListByRepo\<close>, \<^verbatim>\<open>GetReady\<close> and
  \<^verbatim>\<open>GetDependents\<close>, each with its own test and its own initial slice.
\<close>

fun rangeAppend :: "(Task \<Rightarrow> bool) \<Rightarrow> Registry \<Rightarrow> Task slice \<Rightarrow> Task slice" where
  "rangeAppend keep [] tasks = tasks"
| "rangeAppend keep ((k, task) # rest) tasks =
     rangeAppend keep rest (if keep task then append_slice tasks task else tasks)"

definition List :: "Registry \<Rightarrow> Task slice" where
  "List r = rangeAppend (\<lambda>task. True) r (Slice [])"

definition ListByStatus :: "Registry \<Rightarrow> Status \<Rightarrow> Task slice" where
  "ListByStatus r status = rangeAppend (\<lambda>task. Status task = status) r NilSlice"

definition ListByRepo :: "Registry \<Rightarrow> string \<Rightarrow> Task slice" where
  "ListByRepo r repo = rangeAppend (\<lambda>task. Repo task = repo) r NilSlice"

definition GetReady :: "Registry \<Rightarrow> Task slice" where
  "GetReady r =
     rangeAppend (\<lambda>task. \<not> Status task \<noteq> StatusPending \<and> allDepsCompleteLocked r task)
       r NilSlice"

fun GetDepsLoop :: "Registry \<Rightarrow> string list \<Rightarrow> Task slice \<Rightarrow> Task slice" where
  "GetDepsLoop r [] deps = deps"
| "GetDepsLoop r (depID # rest) deps =
     GetDepsLoop r rest
       (case map_of r depID of None \<Rightarrow> deps | Some dep \<Rightarrow> append_slice deps dep)"

definition GetDeps :: "Registry \<Rightarrow> string \<Rightarrow> error + Task slice" where
  "GetDeps r id' =
     (case map_of r id' of
        None \<Rightarrow> Inl (NotFound id')
      | Some task \<Rightarrow> Inr (GetDepsLoop r (Deps task) (Slice [])))"

definition GetDependents :: "Registry \<Rightarrow> string \<Rightarrow> error + Task slice" where
  "GetDependents r id' =
     (if map_of r id' = None then Inl (NotFound id')
      else Inr (rangeAppend (\<lambda>task. id' \<in> set (Deps task)) r NilSlice))"

definition ValidateDeps :: "Registry \<Rightarrow> Task \<Rightarrow> error option" where
  "ValidateDeps r task = validateDepsLocked r task"

text \<open>
  \<^verbatim>\<open>Load\<close> reads and parses a file; what the file system and the JSON decoder hand
  back is the argument.
\<close>

datatype file_read = ReadError | UnmarshalError | RegistryData "Task list"

fun loadFirstPass :: "Task list \<Rightarrow> Registry \<Rightarrow> error option \<times> Registry" where
  "loadFirstPass [] r = (None, r)"
| "loadFirstPass (task # rest) r =
     (case Validate task of
        Some msg \<Rightarrow> (Some (InvalidTask (ID task) msg), r)
      | None \<Rightarrow> loadFirstPass rest (AList.update (ID task) task r))"

fun loadSecondPass :: "Registry \<Rightarrow> Registry \<Rightarrow> error option" where
  "loadSecondPass r [] = None"
| "loadSecondPass r ((k, task) # rest) =
     (case validateDepsLocked r task of
        Some err \<Rightarrow> Some (TaskError (ID task) err)
      | None \<Rightarrow> loadSecondPass r rest)"

definition Load :: "Registry \<Rightarrow> file_read \<Rightarrow> error option \<times> Registry" where
  "Load r file =
     (case file of
        ReadError \<Rightarrow> (Some ReadFailed, r)
      | UnmarshalError \<Rightarrow> (Some UnmarshalFailed, r)
      | RegistryData ts \<Rightarrow>
          (case loadFirstPass ts [] of
             (Some err, r') \<Rightarrow> (Some err, r')
           | (None, r') \<Rightarrow>
               (case loadSecondPass r' r' of
                  Some err \<Rightarrow> (Some err, r')
                | None \<Rightarrow> (None, r'))))"

section \<open>The work command\<close>

subsection \<open>Strings\<close>

text \<open>
  Strings are byte strings. \<^verbatim>\<open>strings.ToLower\<close> on ASCII text adds \<^verbatim>\<open>'a' - 'A'\<close> to
  each of the bytes \<^verbatim>\<open>'A'\<close> to \<^verbatim>\<open>'Z'\<close> and leaves the other bytes as they are.
\<close>

definition ToLowerByte :: "char \<Rightarrow> char" where
  "ToLowerByte c =
     (if CHR ''A'' \<le> c \<and> c \<le> CHR ''Z'' then char_of (of_char c + (32::nat)) else c)"

definition ToLower :: "string \<Rightarrow> string" where
  "ToLower s = map ToLowerByte s"

fun HasPrefix :: "string \<Rightarrow> string \<Rightarrow> bool" where
  "HasPrefix s [] = True"
| "HasPrefix [] (p # ps) = False"
| "HasPrefix (c # cs) (p # ps) = (c = p \<and> HasPrefix cs ps)"

fun Contains :: "string \<Rightarrow> string \<Rightarrow> bool" where
  "Contains [] substr = HasPrefix [] substr"
| "Contains (c # cs) substr = (HasPrefix (c # cs) substr \<or> Contains cs substr)"

text \<open>\<^verbatim>\<open>strings.Split(s, sep)\<close> for a separator of one byte; every call passes \<^verbatim>\<open>"/"\<close>.\<close>

fun Split :: "string \<Rightarrow> char \<Rightarrow> string list" where
  "Split [] sep = [[]]"
| "Split (c # cs) sep =
     (if c = sep then [] # Split cs sep
      else (case Split cs sep of
              [] \<Rightarrow> [[c]]
            | part # parts \<Rightarrow> (c # part) # parts))"

text \<open>An \<^verbatim>\<open>error\<close> of the work command is its text, \<open>None\<close> is \<^verbatim>\<open>nil\<close>.\<close>

definition isQuotaError :: "string option \<Rightarrow> bool" where
  "isQuotaError err =
     (case err of
        None \<Rightarrow> False
      | Some text \<Rightarrow>
          (let errStr = ToLower text
           in Contains errStr ''429'' \<or>
              Contains errStr ''rate limit'' \<or>
              Contains errStr ''quota'' \<or>
              Contains errStr ''too many requests''))"

subsection \<open>The collaborators\<close>

text \<open>
  The quota package is missing from the sources, so its tracker is taken as a parameter:
  the model keeps the calls the command makes on it, in order, and what
  \<^verbatim>\<open>IsExhausted\<close> answers after them is a field of \<open>Env\<close> below. Durations are
  nanoseconds, as in \<^verbatim>\<open>time.Hour\<close>.
\<close>

datatype tracker_call =
    LoadCall
  | SetLimitCall string nat
  | RecordErrorCall string int
  | RecordCall string nat

type_synonym Tracker = "tracker_call list"

definition Hour :: int where
  "Hour = 3600000000000"

definition RecordError :: "Tracker \<Rightarrow> string \<Rightarrow> int \<Rightarrow> Tracker" where
  "RecordError tracker backend blockDuration = tracker @ [RecordErrorCall backend blockDuration]"

definition Record :: "Tracker \<Rightarrow> string \<Rightarrow> nat \<Rightarrow> Tracker" where
  "Record tracker backend tokens = tracker @ [RecordCall backend tokens]"

definition initQuotaTracker :: Tracker where
  "initQuotaTracker = [LoadCall, SetLimitCall ''claude'' 50, SetLimitCall ''copilot'' 100]"

record Result =
  Success :: bool
  Output :: string
  Error :: string

text \<open>The two backends the work command can build, each with the model it runs.\<close>

datatype backend = ClaudeBackend string | CopilotBackend string

text \<open>
  What the world outside the command does: the clock, the task file, the tracker's
  answers, and each call on a backend and its session (\<open>None\<close> for a \<^verbatim>\<open>nil\<close> error).
\<close>

record Env =
  Now :: time
  ParseTaskFile :: "string \<Rightarrow> Task option"
  IsExhausted :: "Tracker \<Rightarrow> string \<Rightarrow> bool"
  generateMCPConfig :: "string option"
  Start :: "backend \<Rightarrow> string option"
  CreateSession :: "backend \<Rightarrow> Task \<Rightarrow> string option"
  Run :: "backend \<Rightarrow> Task \<Rightarrow> string + Result"

text \<open>
  Modelled from the spec: the workspace, whose package is missing from the sources. Of a
  workspace the command reads the default backend, the configured models and the task
  registry. "Orchestrator \<rightarrow> Registry.GetReady()": \<^verbatim>\<open>ws.GetTask\<close> and
  \<^verbatim>\<open>ws.GetReadyTasks\<close> are the registry's \<^verbatim>\<open>Get\<close> and \<^verbatim>\<open>GetReady\<close>.
\<close>

record Workspace =
  Backend :: string
  ClaudeModel :: string
  CopilotModel :: string
  Tasks :: Registry

subsection \<open>runBackend, runWithFailover and the command\<close>

text \<open>The \<^verbatim>\<open>switch backendName\<close> of \<^verbatim>\<open>runBackend\<close>.\<close>

definition createBackend :: "Env \<Rightarrow> Workspace \<Rightarrow> string \<Rightarrow> string \<Rightarrow> string + backend" where
  "createBackend env ws backendName model =
     (if backendName = ''claude'' then
        (case generateMCPConfig env of
           Some err \<Rightarrow> Inl (''failed to generate MCP config: '' @ err)
         | None \<Rightarrow> Inr (ClaudeBackend (if model \<noteq> [] then model else ClaudeModel ws)))
      else if backendName = ''copilot'' then
        Inr (CopilotBackend (if model \<noteq> [] then model else CopilotModel ws))
      else Inl (''unknown backend: '' @ backendName))"

definition runBackend ::
  "Env \<Rightarrow> Workspace \<Rightarrow> Task \<Rightarrow> string \<Rightarrow> string \<Rightarrow> Tracker \<Rightarrow> (string + Result) \<times> Tracker" where
  "runBackend env ws t backendName model tracker =
     (if IsExhausted env tracker backendName
      then (Inl (''quota exhausted for backend '' @ backendName), tracker)
      else
        (case createBackend env ws backendName model of
           Inl err \<Rightarrow> (Inl err, tracker)
         | Inr backend \<Rightarrow>
             (case Start env backend of
                Some err \<Rightarrow>
                  (Inl (''failed to start backend: '' @ err),
                   if isQuotaError (Some err) then RecordError tracker backendName Hour
                   else tracker)
              | None \<Rightarrow>
                  (case CreateSession env backend t of
                     Some err \<Rightarrow>
                       (Inl (''failed to create session: '' @ err),
                        if isQuotaError (Some err) then RecordError tracker backendName Hour
                        else tracker)
                   | None \<Rightarrow>
                       (case Run env backend t of
                          Inl err \<Rightarrow>
                            (Inl err,
                             if isQuotaError (Some err)
                             then RecordError tracker backendName Hour
                             else tracker)
                        | Inr result \<Rightarrow>
                            (Inr result,
                             if Success result then Record tracker backendName 10000
                             else tracker))))))"

definition runWithFailover ::
  "Env \<Rightarrow> Workspace \<Rightarrow> Task \<Rightarrow> string \<Rightarrow> string \<Rightarrow> Tracker \<Rightarrow> (string + Result) \<times> Tracker" where
  "runWithFailover env ws t backendName model tracker =
     (case runBackend env ws t backendName model tracker of
        (Inr result, tracker') \<Rightarrow> (Inr result, tracker')
      | (Inl err, tracker') \<Rightarrow>
          if isQuotaError (Some err) \<and> Fallback t \<noteq> [] then
            (case Split (Fallback t) CHR ''/'' of
               [fallbackBackend, fallbackModel] \<Rightarrow>
                 runBackend env ws t fallbackBackend fallbackModel
                   (RecordError tracker' backendName Hour)
             | _ \<Rightarrow> (Inl err, tracker'))
          else (Inl err, tracker'))"

datatype work_error =
    Propagated error
  | NotPending string Status
  | IncompleteDependencies string
  | AgentFailed string

text \<open>
  \<^verbatim>\<open>t\<close> is the pointer the registry holds, so what \<^verbatim>\<open>t.SetStatus\<close> writes is in
  the registry at once (\<open>writeThrough\<close>); \<^verbatim>\<open>ws.Tasks.Update(t)\<close> then stores the same
  pointer again and its error is dropped. \<^verbatim>\<open>ws.Save()\<close> writes the registry to disk.
\<close>

definition writeThrough :: "Workspace \<Rightarrow> string \<Rightarrow> Task \<Rightarrow> Workspace" where
  "writeThrough ws taskID t = ws\<lparr>Tasks := AList.update taskID t (Tasks ws)\<rparr>"

definition UpdateTask :: "Workspace \<Rightarrow> Task \<Rightarrow> Workspace" where
  "UpdateTask ws t = ws\<lparr>Tasks := snd (Update (Tasks ws) t)\<rparr>"

text \<open>The block \<^verbatim>\<open>// Determine backend and model\<close> of the command.\<close>

definition selectBackend :: "Workspace \<Rightarrow> string \<Rightarrow> Task \<Rightarrow> string \<times> string" where
  "selectBackend ws workBackend t =
     (if workBackend \<noteq> [] then (workBackend, [])
      else if Model t \<noteq> [] then
        (case Split (Model t) CHR ''/'' of
           [backendName, model] \<Rightarrow> (backendName, model)
         | _ \<Rightarrow> (Backend ws, []))
      else (Backend ws, []))"

definition RunE ::
  "Env \<Rightarrow> Workspace \<Rightarrow> string \<Rightarrow> string \<Rightarrow> work_error option \<times> Workspace \<times> Tracker" where
  "RunE env ws workBackend taskID =
     (case Get (Tasks ws) taskID of
        Inl err \<Rightarrow> (Some (Propagated err), ws, [])
      | Inr t0 \<Rightarrow>
          if Status t0 \<noteq> StatusPending then (Some (NotPending taskID (Status t0)), ws, [])
          else if \<not> list_ex (\<lambda>r. ID r = taskID) (elems (GetReady (Tasks ws)))
          then (Some (IncompleteDependencies taskID), ws, [])
          else
            (let t1 = (case ParseTaskFile env taskID of
                         None \<Rightarrow> t0
                       | Some taskFromFile \<Rightarrow>
                           if Model taskFromFile \<noteq> []
                           then t0\<lparr>Model := Model taskFromFile,
                                   Fallback := Fallback taskFromFile\<rparr>
                           else t0);
                 ws1 = writeThrough ws taskID t1;
                 (backendName, model) = selectBackend ws1 workBackend t1
             in (case SetStatus (Now env) t1 StatusInProgress of
                   (Some err, t2) \<Rightarrow> (Some (Propagated err), ws1, [])
                 | (None, t2) \<Rightarrow>
                     (let ws2 = UpdateTask (writeThrough ws1 taskID t2) t2
                      in (case runWithFailover env ws2 t2 backendName model initQuotaTracker of
                            (Inl err, tracker) \<Rightarrow> (Some (AgentFailed err), ws2, tracker)
                          | (Inr result, tracker) \<Rightarrow>
                              if Success result then (None, ws2, tracker)
                              else
                                (let t3 = snd (SetStatus (Now env) t2 StatusFailed);
                                     ws3 = UpdateTask (writeThrough ws2 taskID t3) t3
                                 in (None, ws3, tracker)))))))"

section \<open>Vocabulary of the specification\<close>

text \<open>
  The dependency graph induced by the stored tasks: an edge from the key of a stored task
  to each ID in its deps.
\<close>

definition deps_rel :: "Registry \<Rightarrow> (string \<times> string) set" where
  "deps_rel r = {(k, depID). \<exists>task. map_of r k = Some task \<and> depID \<in> set (Deps task)}"

text \<open>Every deps entry of every stored task is the key of a stored task.\<close>

definition deps_resolve :: "Registry \<Rightarrow> bool" where
  "deps_resolve r \<longleftrightarrow>
     (\<forall>k task. map_of r k = Some task \<longrightarrow> (\<forall>depID \<in> set (Deps task). map_of r depID \<noteq> None))"

definition registry_inv :: "Registry \<Rightarrow> bool" where
  "registry_inv r \<longleftrightarrow> wf_registry r \<and> deps_resolve r \<and> acyclic (deps_rel r)"


section \<open>Examples\<close>

text \<open>The registry of TestRegistryGetReady: \<open>A\<close> without deps, \<open>B\<close> depending on \<open>A\<close>.\<close>

definition exA :: Task where
  "exA = New 0 ''A'' ''first''"

definition exB :: Task where
  "exB = (New 0 ''B'' ''second'')\<lparr>Deps := [''A'']\<rparr>"

definition exAB :: Registry where
  "exAB = [(''A'', exA), (''B'', exB)]"

text \<open>A registry whose only task names a dependency that is not stored.\<close>

definition exDangling :: Registry where
  "exDangling = [(''B'', exB)]"

text \<open>The chain of TestRegistryCircularDependency: \<open>C\<close> depends on \<open>B\<close>, \<open>B\<close> on \<open>A\<close>.\<close>

definition exC :: Task where
  "exC = (New 0 ''C'' ''third'')\<lparr>Deps := [''B'']\<rparr>"

definition exABC :: Registry where
  "exABC = [(''A'', exA), (''B'', exB), (''C'', exC)]"

text \<open>A task file in which \<open>A\<close> depends on \<open>B\<close> and \<open>B\<close> on \<open>A\<close>.\<close>

definition exCyclicFile :: file_read where
  "exCyclicFile = RegistryData [exA\<lparr>Deps := [''B'']\<rparr>, exB]"

text \<open>
  A world in which nothing is exhausted, every call but \<^verbatim>\<open>Run\<close> succeeds, the claude
  session answers with a rate-limit error and the copilot session succeeds; and the same
  world with every session failing on a refused connection.
\<close>

definition exResult :: Result where
  "exResult = \<lparr>Success = True, Output = ''done'', Error = []\<rparr>"

definition exEnv :: Env where
  "exEnv = \<lparr>Now = 100, ParseTaskFile = (\<lambda>taskID. None), IsExhausted = (\<lambda>tracker backend. False),
            generateMCPConfig = None, Start = (\<lambda>backend. None),
            CreateSession = (\<lambda>backend t. None),
            Run = (\<lambda>backend t. case backend of
                     ClaudeBackend m \<Rightarrow> Inl ''rate limit exceeded''
                   | CopilotBackend m \<Rightarrow> Inr exResult)\<rparr>"

definition exEnvDown :: Env where
  "exEnvDown = exEnv\<lparr>Run := (\<lambda>backend t. Inl ''connection refused'')\<rparr>"

text \<open>A workspace holding the pending task \<open>A\<close>, and \<open>A\<close> once claimed, with a fallback.\<close>

definition exWs :: Workspace where
  "exWs = \<lparr>Backend = ''claude'', ClaudeModel = ''sonnet'', CopilotModel = ''gpt-4'',
           Tasks = [(''A'', exA)]\<rparr>"

definition exT :: Task where
  "exT = exA\<lparr>Status := StatusInProgress, Fallback := ''copilot/gpt-4''\<rparr>"

lemmas ex_defs = exA_def exB_def exAB_def New_def

lemmas status_defs = StatusPending_def StatusInProgress_def StatusComplete_def StatusFailed_def

section \<open>Queries\<close>

lemma elems_append_slice: "elems (append_slice s x) = elems s @ [x]"
  by (cases s) simp_all

lemma append_slice_not_nil: "append_slice s x \<noteq> NilSlice"
  by (cases s) simp_all

lemma elems_rangeAppend:
  "elems (rangeAppend keep r tasks) = elems tasks @ filter keep (map snd r)"
  by (induction keep r tasks rule: rangeAppend.induct) (simp_all add: elems_append_slice)

lemma rangeAppend_nil_iff:
  "rangeAppend keep r tasks = NilSlice \<longleftrightarrow> tasks = NilSlice \<and> filter keep (map snd r) = []"
  by (induction keep r tasks rule: rangeAppend.induct) (auto simp: append_slice_not_nil)

lemma allDepsCompleteLoop_iff:
  "allDepsCompleteLoop r deps \<longleftrightarrow>
     (\<forall>depID \<in> set deps. \<exists>dep. map_of r depID = Some dep \<and> Status dep = StatusComplete)"
  by (induction deps) (auto split: option.splits)

lemma stored_tasks: "wf_registry r \<Longrightarrow> set (map snd r) = {task. \<exists>k. map_of r k = Some task}"
  unfolding wf_registry_def
  by (auto simp: rev_image_eqI dest: map_of_SomeD)

text \<open>
  C1. For every registry, the tasks \<^verbatim>\<open>GetReady\<close> returns are exactly the stored tasks
  whose status is pending and whose every dep is the key of a stored task with status
  complete; in particular a stored pending task with no deps is returned.
\<close>

theorem GetReady_exact:
  assumes "wf_registry r"
  shows "set (elems (GetReady r)) =
           {task. (\<exists>k. map_of r k = Some task) \<and> Status task = StatusPending \<and>
                  (\<forall>depID \<in> set (Deps task).
                     \<exists>dep. map_of r depID = Some dep \<and> Status dep = StatusComplete)}
         \<and> ((\<exists>k. map_of r k = Some task) \<and> Status task = StatusPending \<and> Deps task = []
              \<longrightarrow> task \<in> set (elems (GetReady r)))"
proof -
  have "set (elems (GetReady r)) =
          {task \<in> set (map snd r). Status task = StatusPending \<and> allDepsCompleteLocked r task}"
    by (auto simp: GetReady_def elems_rangeAppend)
  then have eq: "set (elems (GetReady r)) =
           {task. (\<exists>k. map_of r k = Some task) \<and> Status task = StatusPending \<and>
                  (\<forall>depID \<in> set (Deps task).
                     \<exists>dep. map_of r depID = Some dep \<and> Status dep = StatusComplete)}"
    unfolding stored_tasks [OF assms] allDepsCompleteLocked_def allDepsCompleteLoop_iff
    by blast
  then show ?thesis by simp
qed

theorem GetReady_exact_witness:
  "wf_registry exAB \<and> exA \<in> set (elems (GetReady exAB)) \<and> exB \<notin> set (elems (GetReady exAB))"
proof -
  have wf: "wf_registry exAB" by (simp add: wf_registry_def exAB_def)
  have a: "map_of exAB ''A'' = Some exA" by (simp add: exAB_def)
  have "Status exA = StatusPending \<and> Deps exA = []" by (simp add: exA_def New_def)
  with a have p: "(\<exists>k. map_of exAB k = Some exA) \<and> Status exA = StatusPending \<and> Deps exA = []"
    by blast
  have inA: "exA \<in> set (elems (GetReady exAB))"
    using GetReady_exact [OF wf, of exA] p by blast
  have "exB \<notin> set (elems (GetReady exAB))"
  proof
    assume "exB \<in> set (elems (GetReady exAB))"
    with GetReady_exact [OF wf, of exA]
    have "\<forall>depID \<in> set (Deps exB). \<exists>dep. map_of exAB depID = Some dep \<and> Status dep = StatusComplete"
      by blast
    then have "\<exists>dep. map_of exAB ''A'' = Some dep \<and> Status dep = StatusComplete"
      by (simp add: exB_def New_def)
    with a have "Status exA = StatusComplete" by simp
    then show False by (simp add: exA_def New_def status_defs)
  qed
  with wf inA show ?thesis by simp
qed

text \<open>
  C10. If a stored task has a dep that is not a key of the registry, the dependency
  check answers false for it and \<^verbatim>\<open>GetReady\<close> does not return it.
\<close>

theorem GetReady_never_dangling:
  assumes "(k, task) \<in> set r" and "depID \<in> set (Deps task)" and "map_of r depID = None"
  shows "\<not> allDepsCompleteLocked r task \<and> task \<notin> set (elems (GetReady r))"
proof -
  from assms(2,3) have "\<not> allDepsCompleteLocked r task"
    unfolding allDepsCompleteLocked_def allDepsCompleteLoop_iff by force
  then show ?thesis by (simp add: GetReady_def elems_rangeAppend)
qed

theorem GetReady_never_dangling_witness:
  "(''B'', exB) \<in> set exDangling \<and> ''A'' \<in> set (Deps exB) \<and> map_of exDangling ''A'' = None \<and>
   Status exB = StatusPending \<and> exB \<notin> set (elems (GetReady exDangling))"
proof -
  have h: "(''B'', exB) \<in> set exDangling" "''A'' \<in> set (Deps exB)" "map_of exDangling ''A'' = None"
    by (simp_all add: exDangling_def ex_defs)
  from GetReady_never_dangling [OF h] h show ?thesis by (simp add: ex_defs)
qed

text \<open>
  C9, as the spec has it, asks for a collection that is not nil from all three queries.
  \<^verbatim>\<open>ListByStatus\<close> and \<^verbatim>\<open>ListByRepo\<close> start from \<^verbatim>\<open>var tasks []*Task\<close> and return
  it untouched when nothing matches: on the empty registry both return nil.
\<close>

theorem list_queries_nil_counterexample:
  "ListByStatus NewRegistry StatusPending = NilSlice \<and> ListByRepo NewRegistry ''android'' = NilSlice"
  by (simp add: ListByStatus_def ListByRepo_def NewRegistry_def)

text \<open>
  C9, amended. \<^verbatim>\<open>List\<close> never returns nil and returns the empty slice on the empty
  registry; \<^verbatim>\<open>ListByStatus\<close> and \<^verbatim>\<open>ListByRepo\<close> return the nil slice, of length
  zero, when no stored task matches. The three are functions of the registry alone and
  return nothing but the slice.
\<close>

theorem list_queries_empty:
  "List r \<noteq> NilSlice \<and>
   (r = [] \<longrightarrow> List r = Slice []) \<and>
   ((\<forall>(k, task) \<in> set r. Status task \<noteq> status) \<longrightarrow>
      ListByStatus r status = NilSlice \<and> length (elems (ListByStatus r status)) = 0) \<and>
   ((\<forall>(k, task) \<in> set r. Repo task \<noteq> repo) \<longrightarrow>
      ListByRepo r repo = NilSlice \<and> length (elems (ListByRepo r repo)) = 0)"
proof -
  have "List r \<noteq> NilSlice"
    by (simp add: List_def rangeAppend_nil_iff)
  moreover have "r = [] \<longrightarrow> List r = Slice []"
    by (simp add: List_def)
  moreover have "(\<forall>(k, task) \<in> set r. Status task \<noteq> status) \<longrightarrow>
      ListByStatus r status = NilSlice \<and> length (elems (ListByStatus r status)) = 0"
  proof
    assume "\<forall>(k, task) \<in> set r. Status task \<noteq> status"
    then have "ListByStatus r status = NilSlice"
      by (auto simp: ListByStatus_def rangeAppend_nil_iff filter_empty_conv)
    then show "ListByStatus r status = NilSlice \<and> length (elems (ListByStatus r status)) = 0"
      by simp
  qed
  moreover have "(\<forall>(k, task) \<in> set r. Repo task \<noteq> repo) \<longrightarrow>
      ListByRepo r repo = NilSlice \<and> length (elems (ListByRepo r repo)) = 0"
  proof
    assume "\<forall>(k, task) \<in> set r. Repo task \<noteq> repo"
    then have "ListByRepo r repo = NilSlice"
      by (auto simp: ListByRepo_def rangeAppend_nil_iff filter_empty_conv)
    then show "ListByRepo r repo = NilSlice \<and> length (elems (ListByRepo r repo)) = 0"
      by simp
  qed
  ultimately show ?thesis by blast
qed

theorem list_queries_empty_witness:
  "List exAB \<noteq> NilSlice \<and>
   ListByStatus exAB StatusFailed = NilSlice \<and>
   ListByRepo exAB ''ios'' = NilSlice"
proof -
  have 1: "\<forall>(k, task) \<in> set exAB. Status task \<noteq> StatusFailed"
    by (simp add: ex_defs status_defs)
  have 2: "\<forall>(k, task) \<in> set exAB. Repo task \<noteq> ''ios''"
    by (simp add: ex_defs)
  from list_queries_empty [of exAB StatusFailed "''ios''"] 1 2
  show ?thesis by blast
qed

section \<open>Writes\<close>

text \<open>
  C8. When \<^verbatim>\<open>Add\<close> or \<^verbatim>\<open>Update\<close> returns an error, whichever it is, the registry
  after the call is the registry before it.
\<close>

theorem failed_write_unchanged:
  "(fst (Add r task) \<noteq> None \<longrightarrow> snd (Add r task) = r) \<and>
   (fst (Update r task) \<noteq> None \<longrightarrow> snd (Update r task) = r)"
  by (simp add: Add_def Update_def split: option.splits)

theorem failed_write_unchanged_witness:
  "fst (Add exAB exA) = Some (DuplicateID ''A'') \<and> snd (Add exAB exA) = exAB \<and>
   fst (Update exAB (exA\<lparr>Deps := [''B'']\<rparr>)) = Some (CircularDependency ''A'') \<and>
   snd (Update exAB (exA\<lparr>Deps := [''B'']\<rparr>)) = exAB"
proof -
  have 1: "fst (Add exAB exA) = Some (DuplicateID ''A'')"
    by (simp add: Add_def Validate_def IsValid_def ex_defs)
  have 2: "fst (Update exAB (exA\<lparr>Deps := [''B'']\<rparr>)) = Some (CircularDependency ''A'')"
    by (simp add: Update_def Validate_def IsValid_def validateDepsLocked_def ex_defs)
  from 1 failed_write_unchanged [of exAB exA]
  have 3: "snd (Add exAB exA) = exAB" by simp
  from 2 failed_write_unchanged [of exAB "exA\<lparr>Deps := [''B'']\<rparr>"]
  have 4: "snd (Update exAB (exA\<lparr>Deps := [''B'']\<rparr>)) = exAB" by simp
  from 1 2 3 4 show ?thesis by blast
qed

section \<open>Status transitions\<close>

text \<open>
  C4. \<^verbatim>\<open>SetStatus\<close> succeeds exactly for pending to in_progress, in_progress to
  complete, in_progress to failed and failed to pending, and then the task has the new
  status; for every other pair it fails with \<open>InvalidTransition\<close> and the task is
  unchanged.
\<close>

theorem SetStatus_transitions:
  "(fst (SetStatus now t to) = None \<longleftrightarrow>
      (Status t, to) \<in> {(StatusPending, StatusInProgress), (StatusInProgress, StatusComplete),
                        (StatusInProgress, StatusFailed), (StatusFailed, StatusPending)}) \<and>
   (fst (SetStatus now t to) = None \<longrightarrow> Status (snd (SetStatus now t to)) = to) \<and>
   (fst (SetStatus now t to) \<noteq> None \<longrightarrow>
      fst (SetStatus now t to) = Some (InvalidTransition (Status t) to) \<and>
      snd (SetStatus now t to) = t)"
  by (auto simp: SetStatus_def canTransition_def)

theorem SetStatus_transitions_witness:
  "fst (SetStatus 5 exA StatusInProgress) = None \<and>
   Status (snd (SetStatus 5 exA StatusInProgress)) = StatusInProgress \<and>
   fst (SetStatus 5 exA StatusComplete) = Some (InvalidTransition StatusPending StatusComplete) \<and>
   snd (SetStatus 5 exA StatusComplete) = exA \<and>
   fst (SetStatus 5 (exA\<lparr>Status := StatusComplete\<rparr>) StatusPending) =
     Some (InvalidTransition StatusComplete StatusPending) \<and>
   fst (SetStatus 5 (exA\<lparr>Status := StatusComplete\<rparr>) StatusInProgress) =
     Some (InvalidTransition StatusComplete StatusInProgress)"
proof -
  let ?ok = "{(StatusPending, StatusInProgress), (StatusInProgress, StatusComplete),
              (StatusInProgress, StatusFailed), (StatusFailed, StatusPending)}"
  let ?done = "exA\<lparr>Status := StatusComplete\<rparr>"
  have s: "Status exA = StatusPending" by (simp add: ex_defs)
  have "(Status exA, StatusInProgress) \<in> ?ok"
    unfolding s by blast
  with SetStatus_transitions [of 5 exA StatusInProgress]
  have 1: "fst (SetStatus 5 exA StatusInProgress) = None \<and>
           Status (snd (SetStatus 5 exA StatusInProgress)) = StatusInProgress"
    by blast
  have "(Status exA, StatusComplete) \<notin> ?ok"
    unfolding s by (simp add: status_defs)
  with SetStatus_transitions [of 5 exA StatusComplete]
  have 2: "fst (SetStatus 5 exA StatusComplete) = Some (InvalidTransition (Status exA) StatusComplete) \<and>
        snd (SetStatus 5 exA StatusComplete) = exA"
    by blast
  have "(Status ?done, StatusPending) \<notin> ?ok"
    by (simp add: status_defs)
  with SetStatus_transitions [of 5 ?done StatusPending]
  have 3: "fst (SetStatus 5 ?done StatusPending) = Some (InvalidTransition (Status ?done) StatusPending)"
    by blast
  have "(Status ?done, StatusInProgress) \<notin> ?ok"
    by (simp add: status_defs)
  with SetStatus_transitions [of 5 ?done StatusInProgress]
  have 4: "fst (SetStatus 5 ?done StatusInProgress) = Some (InvalidTransition (Status ?done) StatusInProgress)"
    by blast
  from 1 2 3 4 s show ?thesis by simp
qed

section \<open>Cycle detection\<close>

lemma checkCircularLocked_sound:
  "fst (checkCircularLocked r s deps V) = Some e \<Longrightarrow>
     e = CircularDependency s \<and> (\<exists>d \<in> set deps. (d, s) \<in> (deps_rel r)\<^sup>*)"
proof (induction r s deps V rule: checkCircularLocked.induct)
  case (1 r s V)
  then show ?case by simp
next
  case (2 r s d ds V)
  show ?case
  proof (cases "d = s")
    case True
    with 2(5) show ?thesis by auto
  next
    case ns: False
    show ?thesis
    proof (cases "d \<in> V")
      case True
      with ns 2(1) 2(5) show ?thesis by auto
    next
      case nv: False
      show ?thesis
      proof (cases "map_of r d")
        case None
        with ns nv 2(2) 2(5) show ?thesis by auto
      next
        case (Some dep)
        obtain res V' where inner: "checkCircularLocked r s (Deps dep) (insert d V) = (res, V')"
          by (cases "checkCircularLocked r s (Deps dep) (insert d V)")
        show ?thesis
        proof (cases res)
          case None
          with ns nv Some inner 2(5)
          have "fst (checkCircularLocked r s ds V') = Some e" by simp
          from 2(4) [OF ns nv Some inner [symmetric] None this] show ?thesis by auto
        next
          case (Some e')
          with ns nv \<open>map_of r d = Some dep\<close> inner 2(5) have "e' = e" by simp
          with inner Some have "fst (checkCircularLocked r s (Deps dep) (insert d V)) = Some e"
            by simp
          from 2(3) [OF ns nv \<open>map_of r d = Some dep\<close> this]
          obtain d' where e: "e = CircularDependency s" and d': "d' \<in> set (Deps dep)"
            and path: "(d', s) \<in> (deps_rel r)\<^sup>*" by blast
          from d' \<open>map_of r d = Some dep\<close> have "(d, d') \<in> deps_rel r"
            by (auto simp: deps_rel_def)
          from this path have "(d, s) \<in> (deps_rel r)\<^sup>*"
            by (rule converse_rtrancl_into_rtrancl)
          with e show ?thesis by auto
        qed
      qed
    qed
  qed
qed

lemma checkCircularLocked_closed:
  "checkCircularLocked r s deps V = (None, V') \<Longrightarrow>
     V \<subseteq> V' \<and> set deps \<subseteq> V' \<and> (s \<notin> V \<longrightarrow> s \<notin> V') \<and>
     (\<forall>v \<in> V' - V. \<forall>task. map_of r v = Some task \<longrightarrow> set (Deps task) \<subseteq> V')"
proof (induction r s deps V arbitrary: V' rule: checkCircularLocked.induct)
  case (1 r s V)
  then show ?case by simp
next
  case (2 r s d ds V)
  note res = 2(5)
  show ?case
  proof (cases "d = s")
    case True
    with res show ?thesis by simp
  next
    case ns: False
    show ?thesis
    proof (cases "d \<in> V")
      case True
      with ns res have "checkCircularLocked r s ds V = (None, V')" by simp
      from 2(1) [OF ns True this] True show ?thesis by auto
    next
      case nv: False
      show ?thesis
      proof (cases "map_of r d")
        case None
        with ns nv res have "checkCircularLocked r s ds (insert d V) = (None, V')" by simp
        from 2(2) [OF ns nv None this]
        have a: "insert d V \<subseteq> V'" "set ds \<subseteq> V'" "s \<notin> insert d V \<longrightarrow> s \<notin> V'"
          "\<forall>v \<in> V' - insert d V. \<forall>task. map_of r v = Some task \<longrightarrow> set (Deps task) \<subseteq> V'"
          by blast+
        have "\<forall>v \<in> V' - V. \<forall>task. map_of r v = Some task \<longrightarrow> set (Deps task) \<subseteq> V'"
        proof (intro ballI allI impI)
          fix v task assume v: "v \<in> V' - V" and t: "map_of r v = Some task"
          from t None have "v \<noteq> d" by auto
          with v have "v \<in> V' - insert d V" by blast
          with a(4) t show "set (Deps task) \<subseteq> V'" by blast
        qed
        moreover have "V \<subseteq> V'" "set (d # ds) \<subseteq> V'" "s \<notin> V \<longrightarrow> s \<notin> V'"
          using a(1,2,3) ns by auto
        ultimately show ?thesis by blast
      next
        case (Some dep)
        obtain x V1 where inner: "checkCircularLocked r s (Deps dep) (insert d V) = (x, V1)"
          by (cases "checkCircularLocked r s (Deps dep) (insert d V)")
        have xn: "x = None"
        proof (cases x)
          case None then show ?thesis .
        next
          case (Some e)
          with ns nv \<open>map_of r d = Some dep\<close> inner res show ?thesis by simp
        qed
        with ns nv Some inner res have outer: "checkCircularLocked r s ds V1 = (None, V')"
          by simp
        from inner xn have inner': "checkCircularLocked r s (Deps dep) (insert d V) = (None, V1)"
          by simp
        from 2(3) [OF ns nv Some inner']
        have a: "insert d V \<subseteq> V1" "set (Deps dep) \<subseteq> V1" "s \<notin> insert d V \<longrightarrow> s \<notin> V1"
          "\<forall>v \<in> V1 - insert d V. \<forall>task. map_of r v = Some task \<longrightarrow> set (Deps task) \<subseteq> V1"
          by blast+
        from 2(4) [OF ns nv Some inner [symmetric] xn outer]
        have b: "V1 \<subseteq> V'" "set ds \<subseteq> V'" "s \<notin> V1 \<longrightarrow> s \<notin> V'"
          "\<forall>v \<in> V' - V1. \<forall>task. map_of r v = Some task \<longrightarrow> set (Deps task) \<subseteq> V'"
          by blast+
        have "V \<subseteq> V'" using a(1) b(1) by blast
        moreover have "set (d # ds) \<subseteq> V'" using a(1) b(1,2) by auto
        moreover have "s \<notin> V \<longrightarrow> s \<notin> V'" using a(3) b(3) ns by auto
        moreover have "\<forall>v \<in> V' - V. \<forall>task. map_of r v = Some task \<longrightarrow> set (Deps task) \<subseteq> V'"
        proof (intro ballI allI impI)
          fix v task assume v: "v \<in> V' - V" and t: "map_of r v = Some task"
          show "set (Deps task) \<subseteq> V'"
          proof (cases "v \<in> V1")
            case False
            with v b(4) t show ?thesis by blast
          next
            case True
            show ?thesis
            proof (cases "v = d")
              case True
              with t Some have "task = dep" by simp
              with a(2) b(1) show ?thesis by blast
            next
              case False
              with True v have "v \<in> V1 - insert d V" by blast
              with a(4) t have "set (Deps task) \<subseteq> V1" by blast
              with b(1) show ?thesis by blast
            qed
          qed
        qed
        ultimately show ?thesis by blast
      qed
    qed
  qed
qed

lemma checkCircularLocked_complete:
  assumes "fst (checkCircularLocked r s deps {}) = None" and "d \<in> set deps"
  shows "(d, s) \<notin> (deps_rel r)\<^sup>*"
proof
  assume path: "(d, s) \<in> (deps_rel r)\<^sup>*"
  obtain V' where "checkCircularLocked r s deps {} = (None, V')"
    using assms(1) by (cases "checkCircularLocked r s deps {}") simp
  from checkCircularLocked_closed [OF this]
  have c: "set deps \<subseteq> V'" "s \<notin> V'"
    "\<forall>v \<in> V'. \<forall>task. map_of r v = Some task \<longrightarrow> set (Deps task) \<subseteq> V'"
    by auto
  from path have "d \<in> V' \<longrightarrow> s \<in> V'"
  proof (induction rule: rtrancl_induct)
    case base
    then show ?case by simp
  next
    case (step y z)
    from step(2) obtain task where "map_of r y = Some task" "z \<in> set (Deps task)"
      by (auto simp: deps_rel_def)
    with c(3) step(3) show ?case by blast
  qed
  with c(1,2) assms(2) show False by blast
qed

lemma checkCircularLocked_iff:
  "fst (checkCircularLocked r s deps {}) = Some (CircularDependency s) \<longleftrightarrow>
     (\<exists>d \<in> set deps. (d, s) \<in> (deps_rel r)\<^sup>*)"
proof
  assume "fst (checkCircularLocked r s deps {}) = Some (CircularDependency s)"
  from checkCircularLocked_sound [OF this] show "\<exists>d \<in> set deps. (d, s) \<in> (deps_rel r)\<^sup>*"
    by simp
next
  assume ex: "\<exists>d \<in> set deps. (d, s) \<in> (deps_rel r)\<^sup>*"
  show "fst (checkCircularLocked r s deps {}) = Some (CircularDependency s)"
  proof (cases "fst (checkCircularLocked r s deps {})")
    case None
    with ex checkCircularLocked_complete show ?thesis by blast
  next
    case (Some e)
    with checkCircularLocked_sound show ?thesis by blast
  qed
qed


lemma validateDepsLoop_None:
  "validateDepsLoop r deps = None \<longleftrightarrow> (\<forall>d \<in> set deps. map_of r d \<noteq> None)"
  by (induction deps) auto

lemma validateDepsLoop_Some:
  "validateDepsLoop r deps = Some e \<Longrightarrow> \<exists>d. e = UnknownDependency d"
  by (induction deps) (auto split: if_splits)

lemma deps_rel_update:
  "(a, b) \<in> deps_rel (AList.update s t r) \<longleftrightarrow>
     (if a = s then b \<in> set (Deps t) else (a, b) \<in> deps_rel r)"
  by (simp add: deps_rel_def update_conv')

lemma rtrancl_to_start:
  assumes agree: "\<And>a b. a \<noteq> s \<Longrightarrow> (a, b) \<in> R' \<Longrightarrow> (a, b) \<in> R"
    and path: "(d, s) \<in> R'\<^sup>*"
  shows "(d, s) \<in> R\<^sup>*"
  using path
proof (induction rule: converse_rtrancl_induct)
  case base
  show ?case by simp
next
  case (step y z)
  show ?case
  proof (cases "y = s")
    case True
    then show ?thesis by simp
  next
    case False
    with agree step(1) have "(y, z) \<in> R" by blast
    from this step(3) show ?thesis by (rule converse_rtrancl_into_rtrancl)
  qed
qed

lemma start_cycle_iff:
  "(s, s) \<in> (deps_rel (AList.update s t r))\<^sup>+ \<longleftrightarrow>
     (\<exists>d \<in> set (Deps t). (d, s) \<in> (deps_rel r)\<^sup>*)"
proof
  assume "(s, s) \<in> (deps_rel (AList.update s t r))\<^sup>+"
  then obtain d where 1: "(s, d) \<in> deps_rel (AList.update s t r)"
    and 2: "(d, s) \<in> (deps_rel (AList.update s t r))\<^sup>*"
    by (meson tranclD)
  from 1 have d: "d \<in> set (Deps t)" by (simp add: deps_rel_update)
  have "(d, s) \<in> (deps_rel r)\<^sup>*"
    by (rule rtrancl_to_start [OF _ 2]) (simp add: deps_rel_update)
  with d show "\<exists>d \<in> set (Deps t). (d, s) \<in> (deps_rel r)\<^sup>*" by blast
next
  assume "\<exists>d \<in> set (Deps t). (d, s) \<in> (deps_rel r)\<^sup>*"
  then obtain d where d: "d \<in> set (Deps t)" and 2: "(d, s) \<in> (deps_rel r)\<^sup>*" by blast
  have "(d, s) \<in> (deps_rel (AList.update s t r))\<^sup>*"
    by (rule rtrancl_to_start [OF _ 2]) (simp add: deps_rel_update)
  moreover from d have "(s, d) \<in> deps_rel (AList.update s t r)" by (simp add: deps_rel_update)
  ultimately show "(s, s) \<in> (deps_rel (AList.update s t r))\<^sup>+" by (rule rtrancl_into_trancl2 [rotated])
qed

text \<open>
  C3. \<^verbatim>\<open>Update\<close> returns \<open>CircularDependency\<close> exactly when the task passes the
  checks that come first (valid fields, known ID, known deps) and the deps being written
  close a path from the task's ID back to itself in the graph the write would leave. The
  walk is \<open>checkCircularLocked\<close>, depth first with one visited set, and it fails at once
  when the next dep is the task's own ID.
\<close>

theorem Update_circular_iff:
  "(fst (Update r task) = Some (CircularDependency (ID task)) \<longleftrightarrow>
      Validate task = None \<and> map_of r (ID task) \<noteq> None \<and> validateDepsLocked r task = None \<and>
      (ID task, ID task) \<in> (deps_rel (AList.update (ID task) task r))\<^sup>+) \<and>
   fst (checkCircularLocked r (ID task) (ID task # deps) visited) =
      Some (CircularDependency (ID task))"
proof -
  have "fst (Update r task) = Some (CircularDependency (ID task)) \<longleftrightarrow>
      Validate task = None \<and> map_of r (ID task) \<noteq> None \<and> validateDepsLocked r task = None \<and>
      fst (checkCircularLocked r (ID task) (Deps task) {}) = Some (CircularDependency (ID task))"
    by (auto simp: Update_def validateDepsLocked_def split: option.splits
        dest: validateDepsLoop_Some checkCircularLocked_sound)
  then show ?thesis
    by (simp add: checkCircularLocked_iff start_cycle_iff)
qed


theorem Update_circular_iff_witness:
  "fst (Update exABC (exA\<lparr>Deps := [''C'']\<rparr>)) = Some (CircularDependency ''A'') \<and>
   (''A'', ''A'') \<in> (deps_rel (AList.update ''A'' (exA\<lparr>Deps := [''C'']\<rparr>) exABC))\<^sup>+ \<and>
   fst (Update exABC (exC\<lparr>Deps := [''A'', ''B'']\<rparr>)) = None \<and>
   (''C'', ''C'') \<notin> (deps_rel (AList.update ''C'' (exC\<lparr>Deps := [''A'', ''B'']\<rparr>) exABC))\<^sup>+"
proof -
  have idA: "ID (exA\<lparr>Deps := [''C'']\<rparr>) = ''A''" by (simp add: ex_defs)
  have idC: "ID (exC\<lparr>Deps := [''A'', ''B'']\<rparr>) = ''C''" by (simp add: exC_def New_def)
  have 1: "fst (Update exABC (exA\<lparr>Deps := [''C'']\<rparr>)) = Some (CircularDependency ''A'')"
    by (simp add: Update_def Validate_def IsValid_def validateDepsLocked_def exABC_def exC_def ex_defs)
  have 2: "fst (Update exABC (exC\<lparr>Deps := [''A'', ''B'']\<rparr>)) = None"
    by (simp add: Update_def Validate_def IsValid_def validateDepsLocked_def exABC_def exC_def ex_defs)
  have v: "Validate (exC\<lparr>Deps := [''A'', ''B'']\<rparr>) = None"
    by (simp add: Validate_def IsValid_def exC_def New_def)
  have m: "map_of exABC ''C'' \<noteq> None" by (simp add: exABC_def)
  have d: "validateDepsLocked exABC (exC\<lparr>Deps := [''A'', ''B'']\<rparr>) = None"
    by (simp add: validateDepsLocked_def exABC_def exC_def New_def)
  from 1 Update_circular_iff [of exABC "exA\<lparr>Deps := [''C'']\<rparr>"] idA
  have 3: "(''A'', ''A'') \<in> (deps_rel (AList.update ''A'' (exA\<lparr>Deps := [''C'']\<rparr>) exABC))\<^sup>+"
    by simp
  from 2 v m d Update_circular_iff [of exABC "exC\<lparr>Deps := [''A'', ''B'']\<rparr>"] idC
  have 4: "(''C'', ''C'') \<notin> (deps_rel (AList.update ''C'' (exC\<lparr>Deps := [''A'', ''B'']\<rparr>) exABC))\<^sup>+"
    by simp
  from 1 2 3 4 show ?thesis by blast
qed


section \<open>The invariant of the registry\<close>

lemma cycle_through_start:
  assumes agree: "\<And>a b. a \<noteq> s \<Longrightarrow> (a, b) \<in> R' \<Longrightarrow> (a, b) \<in> R"
    and path: "(x, y) \<in> R'\<^sup>+"
  shows "(x, y) \<in> R\<^sup>+ \<or> ((x, s) \<in> R'\<^sup>* \<and> (s, y) \<in> R'\<^sup>+)"
  using path
proof (induction rule: trancl_induct)
  case (base y)
  show ?case
  proof (cases "x = s")
    case True
    with base show ?thesis by auto
  next
    case False
    with agree base show ?thesis by blast
  qed
next
  case (step y z)
  show ?case
  proof (cases "y = s")
    case True
    with step(1,2) show ?thesis by (auto intro: trancl_into_rtrancl)
  next
    case False
    with agree step(2) have yz: "(y, z) \<in> R" by blast
    from step(3) show ?thesis
    proof
      assume "(x, y) \<in> R\<^sup>+"
      with yz show ?thesis by (auto intro: trancl_into_trancl)
    next
      assume "(x, s) \<in> R'\<^sup>* \<and> (s, y) \<in> R'\<^sup>+"
      with step(2) show ?thesis by (auto intro: trancl_into_trancl)
    qed
  qed
qed

lemma acyclic_update:
  assumes "acyclic (deps_rel r)" and "(s, s) \<notin> (deps_rel (AList.update s t r))\<^sup>+"
  shows "acyclic (deps_rel (AList.update s t r))"
  unfolding acyclic_def
proof (intro allI notI)
  fix x assume "(x, x) \<in> (deps_rel (AList.update s t r))\<^sup>+"
  from cycle_through_start [where R = "deps_rel r" and s = s, OF _ this]
  have "(x, x) \<in> (deps_rel r)\<^sup>+ \<or>
        ((x, s) \<in> (deps_rel (AList.update s t r))\<^sup>* \<and> (s, x) \<in> (deps_rel (AList.update s t r))\<^sup>+)"
    by (simp add: deps_rel_update)
  then show False
  proof
    assume "(x, x) \<in> (deps_rel r)\<^sup>+"
    with assms(1) show False by (simp add: acyclic_def)
  next
    assume "(x, s) \<in> (deps_rel (AList.update s t r))\<^sup>* \<and> (s, x) \<in> (deps_rel (AList.update s t r))\<^sup>+"
    then have "(s, s) \<in> (deps_rel (AList.update s t r))\<^sup>+" by auto
    with assms(2) show False by simp
  qed
qed

lemma deps_resolve_update:
  assumes "deps_resolve r" and "\<forall>d \<in> set (Deps t). map_of r d \<noteq> None"
  shows "deps_resolve (AList.update s t r)"
  using assms unfolding deps_resolve_def update_conv'
  by (auto split: if_splits)

lemma wf_update: "wf_registry r \<Longrightarrow> wf_registry (AList.update k v r)"
  by (simp add: wf_registry_def distinct_update)

lemma resolve_reach:
  assumes "deps_resolve r" and "(d, z) \<in> (deps_rel r)\<^sup>*" and "map_of r d \<noteq> None"
  shows "map_of r z \<noteq> None"
  using assms(2,3)
proof (induction rule: rtrancl_induct)
  case base
  then show ?case .
next
  case (step y z)
  from step(2) obtain ty where "map_of r y = Some ty" "z \<in> set (Deps ty)"
    by (auto simp: deps_rel_def)
  with assms(1) show ?case by (auto simp: deps_resolve_def)
qed

lemma Add_preserves:
  assumes inv: "registry_inv r" and ok: "Add r task = (None, r')"
  shows "registry_inv r'"
proof -
  let ?s = "ID task"
  have fresh: "map_of r ?s = None"
    using ok by (simp add: Add_def split: option.splits if_splits)
  have "validateDepsLocked r task = None"
    using ok by (simp add: Add_def split: option.splits if_splits)
  then have deps: "\<forall>d \<in> set (Deps task). map_of r d \<noteq> None"
    by (simp add: validateDepsLocked_def validateDepsLoop_None)
  have r': "r' = AList.update ?s task r"
    using ok by (simp add: Add_def split: option.splits if_splits)
  from inv have wf: "wf_registry r" and res: "deps_resolve r" and acy: "acyclic (deps_rel r)"
    by (simp_all add: registry_inv_def)
  have "(?s, ?s) \<notin> (deps_rel (AList.update ?s task r))\<^sup>+"
  proof
    assume "(?s, ?s) \<in> (deps_rel (AList.update ?s task r))\<^sup>+"
    then obtain d where d: "d \<in> set (Deps task)" and p: "(d, ?s) \<in> (deps_rel r)\<^sup>*"
      unfolding start_cycle_iff by blast
    from d deps have "map_of r d \<noteq> None" by blast
    with res p have "map_of r ?s \<noteq> None" by (rule resolve_reach)
    with fresh show False by simp
  qed
  with acy have "acyclic (deps_rel r')" unfolding r' by (rule acyclic_update)
  moreover from res deps have "deps_resolve r'" unfolding r' by (rule deps_resolve_update)
  moreover from wf have "wf_registry r'" unfolding r' by (rule wf_update)
  ultimately show ?thesis by (simp add: registry_inv_def)
qed

lemma Update_preserves:
  assumes inv: "registry_inv r" and ok: "Update r task = (None, r')"
  shows "registry_inv r'"
proof -
  let ?s = "ID task"
  have "validateDepsLocked r task = None"
    using ok by (simp add: Update_def split: option.splits if_splits)
  then have deps: "\<forall>d \<in> set (Deps task). map_of r d \<noteq> None"
    by (simp add: validateDepsLocked_def validateDepsLoop_None)
  have chk: "fst (checkCircularLocked r ?s (Deps task) {}) = None"
    using ok by (simp add: Update_def split: option.splits if_splits)
  have r': "r' = AList.update ?s task r"
    using ok by (simp add: Update_def split: option.splits if_splits)
  from inv have wf: "wf_registry r" and res: "deps_resolve r" and acy: "acyclic (deps_rel r)"
    by (simp_all add: registry_inv_def)
  from chk have "(?s, ?s) \<notin> (deps_rel (AList.update ?s task r))\<^sup>+"
    unfolding start_cycle_iff using checkCircularLocked_complete by blast
  with acy have "acyclic (deps_rel r')" unfolding r' by (rule acyclic_update)
  moreover from res deps have "deps_resolve r'" unfolding r' by (rule deps_resolve_update)
  moreover from wf have "wf_registry r'" unfolding r' by (rule wf_update)
  ultimately show ?thesis by (simp add: registry_inv_def)
qed

lemma dependentsLoop_None:
  "dependentsLoop k r = None \<longleftrightarrow> (\<forall>(k', task) \<in> set r. k \<notin> set (Deps task))"
  by (induction k r rule: dependentsLoop.induct) auto

lemma Delete_preserves:
  assumes inv: "registry_inv r" and ok: "Delete r k = (None, r')"
  shows "registry_inv r'"
proof -
  have "dependentsLoop k r = None"
    using ok by (simp add: Delete_def split: option.splits if_splits)
  then have nodep: "\<forall>(k', task) \<in> set r. k \<notin> set (Deps task)"
    by (simp add: dependentsLoop_None)
  have r': "r' = AList.delete k r"
    using ok by (simp add: Delete_def split: option.splits if_splits)
  from inv have wf: "wf_registry r" and res: "deps_resolve r" and acy: "acyclic (deps_rel r)"
    by (simp_all add: registry_inv_def)
  have "deps_rel r' \<subseteq> deps_rel r"
    unfolding r' by (auto simp: deps_rel_def delete_conv' split: if_splits)
  with acy have "acyclic (deps_rel r')" by (rule acyclic_subset)
  moreover have "deps_resolve r'"
    unfolding deps_resolve_def
  proof (intro allI impI ballI)
    fix k' task d
    assume m: "map_of r' k' = Some task" and d: "d \<in> set (Deps task)"
    from m have m': "map_of r k' = Some task"
      unfolding r' by (auto simp: delete_conv' split: if_splits)
    then have "(k', task) \<in> set r" by (rule map_of_SomeD)
    with nodep d have "d \<noteq> k" by auto
    moreover from res m' d have "map_of r d \<noteq> None" by (auto simp: deps_resolve_def)
    ultimately show "map_of r' d \<noteq> None" unfolding r' by (simp add: delete_conv')
  qed
  moreover from wf have "wf_registry r'"
    unfolding r' by (simp add: wf_registry_def distinct_delete)
  ultimately show ?thesis by (simp add: registry_inv_def)
qed

lemma loadFirstPass_wf:
  "wf_registry r \<Longrightarrow> wf_registry (snd (loadFirstPass ts r))"
  by (induction ts r rule: loadFirstPass.induct) (auto simp: wf_update split: option.splits)

lemma loadSecondPass_None:
  "loadSecondPass r es = None \<Longrightarrow> \<forall>(k, task) \<in> set es. validateDepsLocked r task = None"
  by (induction r es rule: loadSecondPass.induct) (auto split: option.splits)

lemma Load_establishes:
  assumes ok: "Load r f = (None, r')"
  shows "wf_registry r' \<and> deps_resolve r'"
proof -
  from ok obtain ts where f_eq: "f = RegistryData ts" by (cases f) (auto simp: Load_def)
  obtain e r1 where first: "loadFirstPass ts [] = (e, r1)" by (cases "loadFirstPass ts []")
  from ok f_eq first have r': "r' = r1" and second: "loadSecondPass r1 r1 = None"
    by (auto simp: Load_def split: option.splits)
  have "wf_registry (snd (loadFirstPass ts []))"
    by (rule loadFirstPass_wf) (simp add: wf_registry_def)
  with first have wf: "wf_registry r1" by simp
  have "deps_resolve r1"
    unfolding deps_resolve_def
  proof (intro allI impI)
    fix k task assume "map_of r1 k = Some task"
    then have "(k, task) \<in> set r1" by (rule map_of_SomeD)
    with loadSecondPass_None [OF second] have "validateDepsLocked r1 task = None" by auto
    then show "\<forall>depID \<in> set (Deps task). map_of r1 depID \<noteq> None"
      by (simp add: validateDepsLocked_def validateDepsLoop_None)
  qed
  with wf r' show ?thesis by simp
qed

text \<open>
  C2, as the spec has it, holds the graph acyclic after every successful \<^verbatim>\<open>Load\<close>
  too. \<^verbatim>\<open>Load\<close> installs the tasks and checks that every dep is stored; it never
  walks the graph. A file in which two tasks depend on each other loads without error.
\<close>

theorem Load_cycle_counterexample:
  "fst (Load NewRegistry exCyclicFile) = None \<and>
   \<not> acyclic (deps_rel (snd (Load NewRegistry exCyclicFile)))"
proof -
  have l: "Load NewRegistry exCyclicFile = (None, [(''A'', exA\<lparr>Deps := [''B'']\<rparr>), (''B'', exB)])"
    by (simp add: Load_def exCyclicFile_def Validate_def IsValid_def validateDepsLocked_def ex_defs)
  have "(''A'', ''B'') \<in> deps_rel [(''A'', exA\<lparr>Deps := [''B'']\<rparr>), (''B'', exB)]"
    by (simp add: deps_rel_def)
  moreover have "(''B'', ''A'') \<in> deps_rel [(''A'', exA\<lparr>Deps := [''B'']\<rparr>), (''B'', exB)]"
    by (simp add: deps_rel_def exB_def New_def)
  ultimately have "(''A'', ''A'') \<in> (deps_rel [(''A'', exA\<lparr>Deps := [''B'']\<rparr>), (''B'', exB)])\<^sup>+"
    by (meson trancl.intros)
  then have "\<not> acyclic (deps_rel [(''A'', exA\<lparr>Deps := [''B'']\<rparr>), (''B'', exB)])"
    by (auto simp: acyclic_def)
  with l show ?thesis by simp
qed

text \<open>
  C2, amended. The empty registry has an acyclic graph in which every dep resolves; a
  successful \<^verbatim>\<open>Add\<close>, \<^verbatim>\<open>Update\<close> or \<^verbatim>\<open>Delete\<close> on a registry with both
  properties leaves a registry with both; after a successful \<^verbatim>\<open>Load\<close> every dep of
  every stored task resolves.
\<close>

theorem registry_invariant:
  "registry_inv NewRegistry \<and>
   (registry_inv r \<and> Add r task = (None, r') \<longrightarrow> registry_inv r') \<and>
   (registry_inv r \<and> Update r task = (None, r') \<longrightarrow> registry_inv r') \<and>
   (registry_inv r \<and> Delete r k = (None, r') \<longrightarrow> registry_inv r') \<and>
   (Load r f = (None, r') \<longrightarrow> wf_registry r' \<and> deps_resolve r')"
proof -
  have "registry_inv NewRegistry"
    by (simp add: registry_inv_def NewRegistry_def wf_registry_def deps_resolve_def deps_rel_def
        acyclic_def)
  with Add_preserves Update_preserves Delete_preserves Load_establishes
  show ?thesis by blast
qed


theorem registry_invariant_witness:
  "registry_inv exAB \<and>
   registry_inv (snd (Update exAB (exB\<lparr>Title := ''renamed''\<rparr>))) \<and>
   registry_inv (snd (Delete exAB ''B'')) \<and>
   deps_resolve (snd (Load NewRegistry exCyclicFile))"
proof -
  have a1: "Add NewRegistry exA = (None, [(''A'', exA)])"
    by (simp add: Add_def NewRegistry_def Validate_def IsValid_def validateDepsLocked_def ex_defs)
  have a2: "Add [(''A'', exA)] exB = (None, exAB)"
    by (simp add: Add_def Validate_def IsValid_def validateDepsLocked_def ex_defs)
  have u: "Update exAB (exB\<lparr>Title := ''renamed''\<rparr>) =
             (None, [(''A'', exA), (''B'', exB\<lparr>Title := ''renamed''\<rparr>)])"
    by (simp add: Update_def Validate_def IsValid_def validateDepsLocked_def ex_defs)
  have d: "Delete exAB ''B'' = (None, [(''A'', exA)])"
    by (simp add: Delete_def ex_defs)
  have l: "Load NewRegistry exCyclicFile = (None, [(''A'', exA\<lparr>Deps := [''B'']\<rparr>), (''B'', exB)])"
    by (simp add: Load_def exCyclicFile_def Validate_def IsValid_def validateDepsLocked_def ex_defs)
  from registry_invariant [of NewRegistry exA "[(''A'', exA)]"] a1
  have i1: "registry_inv [(''A'', exA)]" by blast
  from registry_invariant [of "[(''A'', exA)]" exB exAB] a2 i1
  have i2: "registry_inv exAB" by blast
  from registry_invariant [of exAB "exB\<lparr>Title := ''renamed''\<rparr>"
      "[(''A'', exA), (''B'', exB\<lparr>Title := ''renamed''\<rparr>)]"] u i2
  have i3: "registry_inv (snd (Update exAB (exB\<lparr>Title := ''renamed''\<rparr>)))" by simp
  from registry_invariant [of exAB _ "[(''A'', exA)]" "''B''"] d i2
  have i4: "registry_inv (snd (Delete exAB ''B''))" by simp
  from registry_invariant [of NewRegistry _ "[(''A'', exA\<lparr>Deps := [''B'']\<rparr>), (''B'', exB)]" _ exCyclicFile] l
  have i5: "deps_resolve (snd (Load NewRegistry exCyclicFile))" by simp
  from i2 i3 i4 i5 show ?thesis by blast
qed


section \<open>Quota signals\<close>







section \<open>Failover\<close>

lemma Split_no_sep: "sep \<notin> set s \<Longrightarrow> Split s sep = [s]"
  by (induction s) auto

lemma Split_at_sep: "sep \<notin> set a \<Longrightarrow> Split (a @ sep # b) sep = a # Split b sep"
  by (induction a) auto

lemma Split_two:
  "sep \<notin> set a \<Longrightarrow> sep \<notin> set b \<Longrightarrow> Split (a @ [sep] @ b) sep = [a, b]"
  by (simp add: Split_at_sep Split_no_sep)

lemma runBackend_tracker:
  "runBackend env ws t backendName model tracker = (Inl err, tracker') \<Longrightarrow>
     tracker' = tracker \<or> tracker' = tracker @ [RecordErrorCall backendName Hour]"
  by (auto simp: runBackend_def RecordError_def split: if_splits sum.splits option.splits)

lemma runBackend_success:
  "runBackend env ws t backendName model tracker = (Inr result, tracker') \<Longrightarrow>
     tracker' = (if Success result then tracker @ [RecordCall backendName 10000] else tracker)"
  by (auto simp: runBackend_def Record_def split: if_splits sum.splits option.splits)

text \<open>
  C5. When the primary attempt returns an error that is a quota signal and the task's
  fallback is \<open>backend/model\<close>, \<^verbatim>\<open>runWithFailover\<close> records an error against the
  primary backend and its result is that of one attempt on the fallback backend and
  model; if that attempt returns a successful result, the one usage record of the run is
  against the fallback backend. Before that the primary attempt has recorded nothing or
  an error against the primary.
\<close>

theorem failover_on_quota:
  assumes primary: "runBackend env ws t backendName model tracker = (Inl err, tracker1)"
    and quota: "isQuotaError (Some err)"
    and fallback: "Fallback t = fallbackBackend @ ''/'' @ fallbackModel"
    and nosep: "CHR ''/'' \<notin> set fallbackBackend" "CHR ''/'' \<notin> set fallbackModel"
  shows "(tracker1 = tracker \<or> tracker1 = tracker @ [RecordErrorCall backendName Hour]) \<and>
         runWithFailover env ws t backendName model tracker =
           runBackend env ws t fallbackBackend fallbackModel
             (tracker1 @ [RecordErrorCall backendName Hour]) \<and>
         (runWithFailover env ws t backendName model tracker = (Inr result, tracker2) \<and>
            Success result \<longrightarrow>
          tracker2 = tracker1 @ [RecordErrorCall backendName Hour,
                                 RecordCall fallbackBackend 10000])"
proof -
  from fallback nosep have split: "Split (Fallback t) CHR ''/'' = [fallbackBackend, fallbackModel]"
    using Split_two [of "CHR ''/''" fallbackBackend fallbackModel] by simp
  from fallback have ne: "Fallback t \<noteq> []" by simp
  from primary quota ne split
  have run: "runWithFailover env ws t backendName model tracker =
           runBackend env ws t fallbackBackend fallbackModel
             (tracker1 @ [RecordErrorCall backendName Hour])"
    by (simp add: runWithFailover_def RecordError_def)
  have "runWithFailover env ws t backendName model tracker = (Inr result, tracker2) \<and>
            Success result \<longrightarrow>
          tracker2 = tracker1 @ [RecordErrorCall backendName Hour,
                                 RecordCall fallbackBackend 10000]"
    unfolding run using runBackend_success by fastforce
  with run runBackend_tracker [OF primary] show ?thesis by blast
qed

theorem failover_on_quota_witness:
  "runWithFailover exEnv exWs exT ''claude'' ''opus'' initQuotaTracker =
     (Inr exResult,
      initQuotaTracker @ [RecordErrorCall ''claude'' Hour, RecordErrorCall ''claude'' Hour,
                          RecordCall ''copilot'' 10000])"
proof -
  have primary: "runBackend exEnv exWs exT ''claude'' ''opus'' initQuotaTracker =
         (Inl ''rate limit exceeded'', initQuotaTracker @ [RecordErrorCall ''claude'' Hour])"
    by code_simp
  have quota: "isQuotaError (Some ''rate limit exceeded'')"
    by code_simp
  have fallback: "Fallback exT = ''copilot'' @ ''/'' @ ''gpt-4''"
    by (simp add: exT_def)
  have nosep: "CHR ''/'' \<notin> set ''copilot''" "CHR ''/'' \<notin> set ''gpt-4''"
    by simp_all
  have second: "runBackend exEnv exWs exT ''copilot'' ''gpt-4''
          ((initQuotaTracker @ [RecordErrorCall ''claude'' Hour]) @ [RecordErrorCall ''claude'' Hour]) =
        (Inr exResult,
         initQuotaTracker @ [RecordErrorCall ''claude'' Hour, RecordErrorCall ''claude'' Hour,
                             RecordCall ''copilot'' 10000])"
    by code_simp
  from failover_on_quota [OF primary quota fallback nosep] second
  show ?thesis by simp
qed

text \<open>
  C7. The command returns the error of \<^verbatim>\<open>runWithFailover\<close> before it reaches the
  branch that sets the status to failed. With a backend whose session fails on a refused
  connection, and no fallback, the command returns the error and the task it claimed
  stays in progress.
\<close>

theorem RunE_error_leaves_in_progress:
  "fst (RunE exEnvDown exWs [] ''A'') = Some (AgentFailed ''connection refused'') \<and>
   map_option Status (map_of (Tasks (fst (snd (RunE exEnvDown exWs [] ''A'')))) ''A'') =
     Some StatusInProgress \<and>
   StatusInProgress \<noteq> StatusFailed"
proof -
  have "fst (RunE exEnvDown exWs [] ''A'') = Some (AgentFailed ''connection refused'')"
    by code_simp
  moreover have "map_option Status (map_of (Tasks (fst (snd (RunE exEnvDown exWs [] ''A'')))) ''A'') =
     Some StatusInProgress"
    by code_simp
  moreover have "StatusInProgress \<noteq> StatusFailed"
    by (simp add: status_defs)
  ultimately show ?thesis by blast
qed

end
